theory Spec2Isabelle
  imports Complex_Main
begin

section \<open>Paths and validation errors\<close>

text \<open>
  A Path is a read-only array of segments, each a string, a number or a symbol.
  Number segments are modelled as integers and a symbol by its description.
\<close>

datatype segment = SStr string | SNum int | SSym string

type_synonym path = "segment list"

text \<open>
  Whatever a parser throws: a \<open>ParserError\<close> carrying its path and message, or any
  other exception value.
\<close>

datatype 'x thrown = ParserError path string | Other 'x

type_synonym ('i, 'o, 'x) parser = "'i \<Rightarrow> path \<Rightarrow> 'x thrown + 'o"

subsection \<open>Number and symbol display forms\<close>

definition digit_char :: "nat \<Rightarrow> char" where
  "digit_char n = ''0123456789'' ! (n mod 10)"

fun string_of_nat :: "nat \<Rightarrow> string" where
  "string_of_nat n =
     (if n < 10 then [digit_char n] else string_of_nat (n div 10) @ [digit_char n])"

declare string_of_nat.simps [simp del]

definition string_of_int :: "int \<Rightarrow> string" where
  "string_of_int k = (if k < 0 then ''-'' @ string_of_nat (nat (- k)) else string_of_nat (nat k))"

definition string_of_symbol :: "string \<Rightarrow> string" where
  "string_of_symbol d = ''Symbol('' @ d @ '')''"

subsection \<open>formatPath\<close>

function formatPath_loop :: "path \<Rightarrow> nat \<Rightarrow> string \<Rightarrow> string" where
  "formatPath_loop path i str =
     (if i < length path then
        formatPath_loop path (Suc i)
          (case path ! i of
             SStr segment \<Rightarrow> (if i = 0 then str @ segment else str @ ''.'' @ segment)
           | SNum segment \<Rightarrow> str @ ''['' @ string_of_int segment @ '']''
           | SSym segment \<Rightarrow> str @ ''['' @ string_of_symbol segment @ '']'')
      else str)"
  by pat_completeness auto
termination
  by (relation "measure (\<lambda>(path, i, str). length path - i)") auto

declare formatPath_loop.simps [simp del]

definition formatPath :: "path \<Rightarrow> string" where
  "formatPath path = formatPath_loop path 0 [CHR 0x22] @ [CHR 0x22]"

text \<open>
  The text one segment contributes, by whether it stands at index 0 of the path.
\<close>

definition segment_text :: "bool \<Rightarrow> segment \<Rightarrow> string" where
  "segment_text at_start seg =
     (case seg of
        SStr s \<Rightarrow> (if at_start then s else ''.'' @ s)
      | SNum n \<Rightarrow> ''['' @ string_of_int n @ '']''
      | SSym d \<Rightarrow> ''['' @ string_of_symbol d @ '']'')"



section \<open>The boolean entry point and the combinators\<close>

text \<open>
  A message source is a fixed string or a function of the input and the path; the
  function is caller code and may itself throw.
\<close>

datatype ('t, 'x) message_source =
    Fixed string
  | Computed "'t \<Rightarrow> path \<Rightarrow> 'x thrown + string"

definition getErrorMessage ::
  "('t, 'x) message_source option \<Rightarrow> 't \<Rightarrow> path \<Rightarrow> 'x thrown + string option" where
  "getErrorMessage messageSource input path =
     (case messageSource of
        None \<Rightarrow> Inr None
      | Some (Fixed message) \<Rightarrow> Inr (Some message)
      | Some (Computed f) \<Rightarrow>
          (case f input path of Inl e \<Rightarrow> Inl e | Inr message \<Rightarrow> Inr (Some message)))"

definition validate :: "'i \<Rightarrow> ('i, 'o, 'x) parser \<Rightarrow> 'x thrown + bool" where
  "validate input parser =
     (case parser input [] of
        Inr output \<Rightarrow> Inr True
      | Inl error \<Rightarrow>
          (case error of
             ParserError p m \<Rightarrow> Inr False
           | Other x \<Rightarrow> Inl error))"


subsection \<open>Numbers\<close>

text \<open>
  A number is NaN or an exact rational; the rounding of IEEE doubles, the infinities
  and negative zero are not modelled.
\<close>

datatype number = NaN | Num rat

fun num_mul :: "number \<Rightarrow> number \<Rightarrow> number" where
  "num_mul (Num a) (Num b) = Num (a * b)"
| "num_mul _ _ = NaN"

fun num_add :: "number \<Rightarrow> number \<Rightarrow> number" where
  "num_add (Num a) (Num b) = Num (a + b)"
| "num_add _ _ = NaN"

subsection \<open>Values\<close>

text \<open>
  The values the lookup and object combinators see. An object is the list of its own
  enumerable string-keyed properties, with distinct names, in enumeration order;
  prototypes, arrays and functions are outside the model.
\<close>

datatype jsval =
    Undefined
  | Null
  | Boolean bool
  | Number number
  | Str string
  | Obj "(string \<times> jsval) list"

subsection \<open>map\<close>

text \<open>A \<open>Map\<close> is a finite map; keys are compared by equality of the key type.\<close>

definition Map_get :: "('k \<rightharpoonup> jsval) \<Rightarrow> 'k \<Rightarrow> jsval" where
  "Map_get m k = (case m k of None \<Rightarrow> Undefined | Some v \<Rightarrow> v)"

definition Map_has :: "('k \<rightharpoonup> jsval) \<Rightarrow> 'k \<Rightarrow> bool" where
  "Map_has m k = (m k \<noteq> None)"

definition map_parser ::
  "('k \<rightharpoonup> jsval) \<Rightarrow> ('k, 'x) message_source option \<Rightarrow> ('k, jsval, 'x) parser" where
  "map_parser m messageSource input path =
     (let output = Map_get m input in
      if output = Undefined \<and> \<not> Map_has m input then
        (case getErrorMessage messageSource input path of
           Inl e \<Rightarrow> Inl e
         | Inr message \<Rightarrow>
             Inl (ParserError path
               (case message of
                  None \<Rightarrow> formatPath path @ '' is an unknown value''
                | Some text \<Rightarrow> text)))
      else Inr output)"

subsection \<open>pipe\<close>

function pipe_loop :: "('t, 't, 'x) parser list \<Rightarrow> nat \<Rightarrow> ('t, 't, 'x) parser" where
  "pipe_loop parsers i v path =
     (if i < length parsers then
        (case (parsers ! i) v path of
           Inl e \<Rightarrow> Inl e
         | Inr v' \<Rightarrow> pipe_loop parsers (Suc i) v' path)
      else Inr v)"
  by pat_completeness auto
termination
  by (relation "measure (\<lambda>(parsers, i, v, path). length parsers - i)") auto

declare pipe_loop.simps [simp del]

definition pipe :: "('t, 't, 'x) parser list \<Rightarrow> ('t, 't, 'x) parser" where
  "pipe parsers = (\<lambda>v path. pipe_loop parsers 0 v path)"

subsection \<open>object\<close>








section \<open>Regular expressions\<close>

text \<open>
  The fragment of the regular-expression language that \<open>ISO_DURATION_REGEXP\<close> is
  written in, with the backtracking semantics of the engine: a matcher maps a state
  (index into the input, remaining input, named groups) to the list of states it can
  finish in, in the order in which backtracking tries them.
\<close>

datatype regexp =
    Chr char
  | Digit
  | OneOf string
  | Seq regexp regexp
  | Alt regexp regexp
  | Opt regexp
  | Star regexp
  | Plus regexp
  | Group string regexp
  | Ahead regexp
  | Bos
  | Eos
  | Eps

type_synonym groups = "string \<rightharpoonup> string"

type_synonym mstate = "nat \<times> string \<times> groups"

definition is_digit :: "char \<Rightarrow> bool" where
  "is_digit c = (c \<in> set ''0123456789'')"

text \<open>
  Greedy repetition: another iteration first, then stop. An iteration that consumes
  nothing is discarded, so at most as many iterations as remaining characters run.
\<close>

fun star :: "(mstate \<Rightarrow> mstate list) \<Rightarrow> nat \<Rightarrow> mstate \<Rightarrow> mstate list" where
  "star m 0 st = [st]"
| "star m (Suc n) st =
     concat (map (star m n)
       (filter (\<lambda>st'. length (fst (snd st')) < length (fst (snd st))) (m st))) @ [st]"

fun rx :: "regexp \<Rightarrow> mstate \<Rightarrow> mstate list" where
  "rx (Chr c) (i, s, g) =
     (case s of [] \<Rightarrow> [] | x # xs \<Rightarrow> if x = c then [(Suc i, xs, g)] else [])"
| "rx Digit (i, s, g) =
     (case s of [] \<Rightarrow> [] | x # xs \<Rightarrow> if is_digit x then [(Suc i, xs, g)] else [])"
| "rx (OneOf cs) (i, s, g) =
     (case s of [] \<Rightarrow> [] | x # xs \<Rightarrow> if x \<in> set cs then [(Suc i, xs, g)] else [])"
| "rx (Seq a b) st = concat (map (rx b) (rx a st))"
| "rx (Alt a b) st = rx a st @ rx b st"
| "rx (Opt a) st = rx a st @ [st]"
| "rx (Star a) (i, s, g) = star (\<lambda>st. rx a st) (length s) (i, s, g)"
| "rx (Plus a) st =
     concat (map (\<lambda>(i, s, g). star (\<lambda>st. rx a st) (length s) (i, s, g)) (rx a st))"
| "rx (Group name a) (i, s, g) =
     map (\<lambda>(j, s', g'). (j, s', g'(name \<mapsto> take (length s - length s') s))) (rx a (i, s, g))"
| "rx (Ahead a) (i, s, g) =
     (case rx a (i, s, g) of [] \<Rightarrow> [] | (j, s', g') # _ \<Rightarrow> [(i, s, g')])"
| "rx Bos (i, s, g) = (if i = 0 then [(i, s, g)] else [])"
| "rx Eos (i, s, g) = (if s = [] then [(i, s, g)] else [])"
| "rx Eps st = [st]"

text \<open>
  \<open>exec\<close> without the global or sticky flag: the first start index, from 0 on, at
  which the expression matches; the result is the match's named groups, or \<open>None\<close>
  for null.
\<close>

fun exec_from :: "regexp \<Rightarrow> nat \<Rightarrow> string \<Rightarrow> groups option" where
  "exec_from r i [] = (case rx r (i, [], Map.empty) of [] \<Rightarrow> None | (j, s', g) # _ \<Rightarrow> Some g)"
| "exec_from r i (c # cs) =
     (case rx r (i, c # cs, Map.empty) of
        [] \<Rightarrow> exec_from r (Suc i) cs
      | (j, s', g) # _ \<Rightarrow> Some g)"

definition exec :: "regexp \<Rightarrow> string \<Rightarrow> groups option" where
  "exec r input = exec_from r 0 input"

section \<open>ISO 8601 durations\<close>

text \<open>
  The pieces that the source joins into one pattern, as one sequence; \<open>element\<close>
  is the source's function of the same name.
\<close>

fun seqs :: "regexp list \<Rightarrow> regexp" where
  "seqs [] = Eps"
| "seqs [r] = r"
| "seqs (r # rs) = Seq r (seqs rs)"

definition element :: "char \<Rightarrow> string \<Rightarrow> regexp" where
  "element designator name =
     Opt (Seq
       (Group name
         (Alt
           (seqs [Star Digit, OneOf '',.'', Plus Digit,
                  Ahead (seqs [Chr designator, Opt (Chr CHR ''T''), Eos])])
           (Plus Digit)))
       (Chr designator))"

definition ISO_DURATION_REGEXP :: regexp where
  "ISO_DURATION_REGEXP = seqs [
     Bos, Opt (Group ''negative'' (Chr CHR ''-'')), Chr CHR ''P'',
     element CHR ''Y'' ''years'',
     element CHR ''M'' ''months'',
     element CHR ''W'' ''weeks'',
     element CHR ''D'' ''days'',
     Opt (seqs [Chr CHR ''T'',
       element CHR ''H'' ''hours'',
       element CHR ''M'' ''minutes'',
       element CHR ''S'' ''seconds'']),
     Eos]"

subsection \<open>parseFloat and the unit factors\<close>

definition digit_val :: "char \<Rightarrow> nat" where
  "digit_val c = of_char c - 48"

definition digits_val :: "string \<Rightarrow> nat" where
  "digits_val ds = foldl (\<lambda>a c. 10 * a + digit_val c) 0 ds"

text \<open>
  \<open>Number.parseFloat\<close> on unsigned decimal text: the longest prefix made of digits,
  then optionally a dot and digits; NaN when that prefix holds no digit. Signs,
  exponents, \<open>Infinity\<close> and leading white space are not modelled.
\<close>

definition parseFloat :: "string \<Rightarrow> number" where
  "parseFloat s =
     (let ip = takeWhile is_digit s;
          fp = (case dropWhile is_digit s of
                  [] \<Rightarrow> []
                | c # r \<Rightarrow> if c = CHR ''.'' then takeWhile is_digit r else [])
      in if ip = [] \<and> fp = [] then NaN
         else Num (of_nat (digits_val ip) + of_nat (digits_val fp) / 10 ^ length fp))"

text \<open>\<open>value.replace(a, b)\<close> with one-character strings: the first occurrence only.\<close>

fun replace :: "char \<Rightarrow> char \<Rightarrow> string \<Rightarrow> string" where
  "replace a b [] = []"
| "replace a b (c # cs) = (if c = a then b # cs else c # replace a b cs)"

definition MS_PER_SECOND :: number where "MS_PER_SECOND = Num 1000"
definition MS_PER_MINUTE :: number where "MS_PER_MINUTE = num_mul (Num 60) MS_PER_SECOND"
definition MS_PER_HOUR :: number where "MS_PER_HOUR = num_mul (Num 60) MS_PER_MINUTE"
definition MS_PER_DAY :: number where "MS_PER_DAY = num_mul (Num 24) MS_PER_HOUR"
definition MS_PER_WEEK :: number where "MS_PER_WEEK = num_mul (Num 7) MS_PER_DAY"
definition MS_PER_MONTH :: number where "MS_PER_MONTH = num_mul (Num 30) MS_PER_DAY"
definition MS_PER_YEAR :: number where "MS_PER_YEAR = num_mul (Num 365) MS_PER_DAY"

text \<open>
  The parser of durations. Its input is a string, as its type says; the expression
  has named groups, so the groups of a match are never undefined.
\<close>

definition parseElem :: "string option \<Rightarrow> number" where
  "parseElem v = (case v of None \<Rightarrow> Num 0 | Some t \<Rightarrow> parseFloat (replace CHR '','' CHR ''.'' t))"

definition isoDuration :: "(string, number, 'x) parser" where
  "isoDuration input path =
     (if input = ''P'' \<or> input = ''PT'' \<or> input = ''-P'' \<or> input = ''-PT'' then
        Inl (ParserError path (formatPath path @ '' must be a valid ISO 8601 duration''))
      else
        case exec ISO_DURATION_REGEXP input of
          None \<Rightarrow> Inl (ParserError path (formatPath path @ '' must be a valid ISO 8601 duration''))
        | Some groups \<Rightarrow>
            Inr (num_mul
              (num_add (num_add (num_add (num_add (num_add (num_add
                (num_mul (parseElem (groups ''years'')) MS_PER_YEAR)
                (num_mul (parseElem (groups ''months'')) MS_PER_MONTH))
                (num_mul (parseElem (groups ''weeks'')) MS_PER_WEEK))
                (num_mul (parseElem (groups ''days'')) MS_PER_DAY))
                (num_mul (parseElem (groups ''hours'')) MS_PER_HOUR))
                (num_mul (parseElem (groups ''minutes'')) MS_PER_MINUTE))
                (num_mul (parseElem (groups ''seconds'')) MS_PER_SECOND))
              (if groups ''negative'' = Some ''-'' then Num (- 1) else Num 1)))"

section \<open>Notions of the statements and proofs\<close>

text \<open>
  The seven quantities of a duration, by the names of their groups and in the order of
  the grammar; a quantity carries a fractional part when its text holds a separator.
\<close>

definition quantity_names :: "string list" where
  "quantity_names = [''years'', ''months'', ''weeks'', ''days'', ''hours'', ''minutes'', ''seconds'']"

definition fractional :: "string option \<Rightarrow> bool" where
  "fractional q = (case q of None \<Rightarrow> False | Some t \<Rightarrow> CHR '','' \<in> set t \<or> CHR ''.'' \<in> set t)"

text \<open>
  A string in which the text behind the first separator, after the digits that follow
  it, still holds a digit: a fractional quantity that is not the last one.
\<close>

definition fraction_not_last :: "string \<Rightarrow> bool" where
  "fraction_not_last s =
     (\<exists>y \<in> set (dropWhile is_digit (tl (dropWhile (\<lambda>c. c \<notin> set '',.'') s))). is_digit y)"

abbreviation pending :: "mstate \<Rightarrow> bool" where
  "pending st \<equiv> fraction_not_last (fst (snd st))"

text \<open>
  Whatever holds of a state before a matcher runs and of every state it can finish in.
\<close>

definition triple :: "(mstate \<Rightarrow> bool) \<Rightarrow> regexp \<Rightarrow> (mstate \<Rightarrow> bool) \<Rightarrow> bool" where
  "triple P r Q = (\<forall>st st'. P st \<longrightarrow> st' \<in> set (rx r st) \<longrightarrow> Q st')"

text \<open>
  The invariant of the quantities: after \<open>k\<close> of them, the later groups are unset,
  and a fractional one among the first \<open>k\<close> leaves only the end of the input, or a
  last "T", and no group after it.
\<close>

definition fraction_inv :: "nat \<Rightarrow> mstate \<Rightarrow> bool" where
  "fraction_inv k st =
     (case st of (i, s, g) \<Rightarrow>
        (\<forall>l. k \<le> l \<and> l < length quantity_names \<longrightarrow> g (quantity_names ! l) = None) \<and>
        (\<forall>j<k. fractional (g (quantity_names ! j)) \<longrightarrow>
           (s = [] \<or> s = ''T'') \<and>
           (\<forall>l. j < l \<and> l < length quantity_names \<longrightarrow> g (quantity_names ! l) = None)))"

text \<open>
  Matching an input without "T" against the same input with a "T" appended: a matcher
  that finishes in the same states, up to that "T", and one that finishes with the same
  groups.
\<close>

definition with_T :: "mstate \<Rightarrow> mstate" where
  "with_T st = (case st of (j, u, h) \<Rightarrow> (j, u @ ''T'', h))"

definition T_stable :: "regexp \<Rightarrow> bool" where
  "T_stable r =
     (\<forall>i s g. CHR ''T'' \<notin> set s \<longrightarrow>
        rx r (i, s @ ''T'', g) = map with_T (rx r (i, s, g)) \<and>
        (\<forall>st \<in> set (rx r (i, s, g)). CHR ''T'' \<notin> set (fst (snd st))))"

definition T_blind :: "regexp \<Rightarrow> bool" where
  "T_blind r =
     (\<forall>i s g. CHR ''T'' \<notin> set s \<longrightarrow>
        map (\<lambda>st. snd (snd st)) (rx r (i, s @ ''T'', g)) = map (\<lambda>st. snd (snd st)) (rx r (i, s, g)))"

section \<open>Path formatting\<close>

lemma formatPath_loop_eq:
  "formatPath_loop path i str =
     str @ concat (map (\<lambda>j. segment_text (j = 0) (path ! j)) [i..<length path])"
proof (induction path i str rule: formatPath_loop.induct)
  case (1 path i str)
  show ?case
  proof (cases "i < length path")
    case True
    then have "[i..<length path] = i # [Suc i..<length path]"
      by (simp add: upt_conv_Cons)
    with True 1 show ?thesis
      by (subst formatPath_loop.simps) (simp add: segment_text_def split: segment.splits)
  next
    case False
    then show ?thesis by (subst formatPath_loop.simps) simp
  qed
qed


lemma formatPath_Cons:
  "formatPath (seg # rest) =
     [CHR 0x22] @ segment_text True seg @ concat (map (segment_text False) rest) @ [CHR 0x22]"
proof -
  have upt: "[0..<length (seg # rest)] = 0 # map Suc [0..<length rest]"
    by (simp add: upt_conv_Cons map_Suc_upt del: upt_Suc)
  have "map (\<lambda>j. segment_text False (rest ! j)) [0..<length rest] = map (segment_text False) rest"
    by (rule nth_equalityI) simp_all
  then have "map (\<lambda>j. segment_text (j = 0) ((seg # rest) ! j)) [0..<length (seg # rest)] =
        segment_text True seg # map (segment_text False) rest"
    unfolding upt by (simp add: comp_def)
  then show ?thesis
    unfolding formatPath_def formatPath_loop_eq by simp
qed


lemmas display_forms = segment_text_def string_of_int_def string_of_nat.simps digit_char_def
  string_of_symbol_def



section \<open>validate\<close>

text \<open>
  C5: validate calls the parser with the empty path; it returns true iff the parser
  returns, false iff the parser throws a ParserError, and any other exception leaves
  validate as it was thrown (validate itself never throws a ParserError).
\<close>

theorem validate_spec:
  "(validate input V = Inr True \<longleftrightarrow> (\<exists>out. V input [] = Inr out)) \<and>
   (validate input V = Inr False \<longleftrightarrow> (\<exists>p m. V input [] = Inl (ParserError p m))) \<and>
   (validate input V = Inl (Other x) \<longleftrightarrow> V input [] = Inl (Other x)) \<and>
   validate input V \<noteq> Inl (ParserError p' m')"
  by (auto simp: validate_def split: sum.splits thrown.splits)

section \<open>map\<close>

text \<open>
  C8: the map parser returns the mapped value whenever the input is a key of the table,
  also when that value is undefined, and succeeds for no other input; for an input that
  is not a key it throws a ParserError at the path, with the default message
  "<formatted path> is an unknown value", or the fixed or computed custom message; what
  a message function throws leaves the parser unchanged.
\<close>

theorem map_parser_spec:
  fixes table :: "'k \<rightharpoonup> jsval"
    and ms :: "('k, 'x) message_source option"
    and f :: "'k \<Rightarrow> path \<Rightarrow> 'x thrown + string"
  shows
  "(table input = Some v \<longrightarrow> map_parser table ms input path = Inr v) \<and>
   (table input = Some Undefined \<longrightarrow> map_parser table ms input path = Inr Undefined) \<and>
   ((\<exists>out. map_parser table ms input path = Inr out) \<longleftrightarrow> input \<in> dom table) \<and>
   (table input = None \<longrightarrow>
      map_parser table (None :: ('k, 'x) message_source option) input path =
        Inl (ParserError path (formatPath path @ '' is an unknown value'')) \<and>
      map_parser table (Some (Fixed msg :: ('k, 'x) message_source)) input path =
        Inl (ParserError path msg) \<and>
      (f input path = Inr msg \<longrightarrow>
         map_parser table (Some (Computed f)) input path = Inl (ParserError path msg)) \<and>
      (f input path = Inl e \<longrightarrow>
         map_parser table (Some (Computed f)) input path = Inl e))"
  by (cases ms) (auto simp: map_parser_def Map_get_def Map_has_def getErrorMessage_def Let_def
      split: option.splits sum.splits message_source.splits)

theorem map_parser_spec_witness:
  "map_parser [''foo'' \<mapsto> Number (Num 42), ''none'' \<mapsto> Undefined] None ''foo'' [SStr ''test'']
     = (Inr (Number (Num 42)) :: unit thrown + jsval) \<and>
   map_parser [''foo'' \<mapsto> Number (Num 42), ''none'' \<mapsto> Undefined] None ''none'' [SStr ''test'']
     = (Inr Undefined :: unit thrown + jsval) \<and>
   map_parser [''foo'' \<mapsto> Number (Num 42), ''none'' \<mapsto> Undefined] None ''baz'' [SStr ''test'']
     = (Inl (ParserError [SStr ''test''] ''\"test\" is an unknown value'') :: unit thrown + jsval) \<and>
   map_parser [''foo'' \<mapsto> Number (Num 42), ''none'' \<mapsto> Undefined]
       (Some (Computed (\<lambda>input path. Inr (''no '' @ input)))) ''baz'' [SStr ''test'']
     = (Inl (ParserError [SStr ''test''] ''no baz'') :: unit thrown + jsval)"
  using
    map_parser_spec [where table = "[''foo'' \<mapsto> Number (Num 42), ''none'' \<mapsto> Undefined]"
      and input = "''foo''" and v = "Number (Num 42)" and ms = "None :: (string, unit) message_source option"
      and path = "[SStr ''test'']"]
    map_parser_spec [where table = "[''foo'' \<mapsto> Number (Num 42), ''none'' \<mapsto> Undefined]"
      and input = "''none''" and v = Undefined and ms = "None :: (string, unit) message_source option"
      and path = "[SStr ''test'']"]
    map_parser_spec [where table = "[''foo'' \<mapsto> Number (Num 42), ''none'' \<mapsto> Undefined]"
      and input = "''baz''" and ms = "None :: (string, unit) message_source option"
      and path = "[SStr ''test'']"
      and f = "\<lambda>input path. Inr (''no '' @ input)" and msg = "''no baz''"]
  by (simp add: formatPath_Cons display_forms)

section \<open>pipe\<close>

lemma pipe_loop_Cons: "pipe_loop (p # ps) (Suc i) v path = pipe_loop ps i v path"
proof (induction ps i v path rule: pipe_loop.induct)
  case (1 parsers i v path)
  show ?case
    using 1
    by (subst pipe_loop.simps, subst (2) pipe_loop.simps) (auto split: sum.splits)
qed

lemma pipe_Nil: "pipe [] v path = Inr v"
  by (simp add: pipe_def pipe_loop.simps)

lemma pipe_Cons:
  "pipe (p # ps) v path = (case p v path of Inl e \<Rightarrow> Inl e | Inr w \<Rightarrow> pipe ps w path)"
  unfolding pipe_def
  by (subst pipe_loop.simps) (simp add: pipe_loop_Cons split: sum.splits)

lemma pipe_append:
  "pipe (ps @ qs) v path = (case pipe ps v path of Inl e \<Rightarrow> Inl e | Inr w \<Rightarrow> pipe qs w path)"
  by (induction ps arbitrary: v) (auto simp: pipe_Nil pipe_Cons split: sum.splits)

lemma pipe_first_failure:
  assumes "k < length ps" "pipe (take k ps) v path = Inr w" "(ps ! k) w path = Inl e"
  shows "pipe ps v path = Inl e"
proof -
  have "ps = take k ps @ (ps ! k) # drop (Suc k) ps"
    using assms(1) by (simp add: id_take_nth_drop)
  then have "pipe ps v path = pipe (take k ps @ (ps ! k) # drop (Suc k) ps) v path"
    by simp
  also have "\<dots> = Inl e"
    using assms(2,3) by (simp add: pipe_append pipe_Cons)
  finally show ?thesis .
qed

text \<open>
  C6: pipe without parsers returns its input for every input and path; pipe of one
  parser is that parser; a chain runs its first stage on the input and the given path and
  hands the output, with the same path, to the chain of the remaining stages; and the
  first stage that throws, after all stages before it returned, ends the chain with
  exactly its error.
\<close>

theorem pipe_spec:
  "(pipe [] v path :: 'x thrown + 't) = Inr v \<and>
   pipe [f] = (f :: ('t, 't, 'x) parser) \<and>
   pipe (p # ps) v path = (case p v path of Inl e \<Rightarrow> Inl e | Inr w \<Rightarrow> pipe ps w path) \<and>
   (k < length qs \<and> pipe (take k qs) v path = Inr w \<and> (qs ! k) w path = Inl e \<longrightarrow>
      pipe qs v path = Inl e) \<and>
   (pipe qs v path = Inr w \<longrightarrow> pipe (qs @ [f]) v path = f w path)"
proof -
  have "pipe [f] = f"
    by (rule ext, rule ext) (simp add: pipe_Cons pipe_Nil split: sum.splits)
  then show ?thesis
    by (auto simp: pipe_Nil pipe_Cons pipe_append intro: pipe_first_failure split: sum.splits)
qed

theorem pipe_spec_witness:
  "pipe [\<lambda>v path. Inr (v + 1), \<lambda>v path. Inl (ParserError path ''stop''), \<lambda>v path. Inr (v + 1)]
     (1 :: nat) [SStr ''test'']
     = (Inl (ParserError [SStr ''test''] ''stop'') :: unit thrown + nat) \<and>
   pipe ([\<lambda>v path. Inr (v + 1), \<lambda>v path. Inr (v + 1)] @ [\<lambda>v path. Inr (v + 1)]) (1 :: nat) []
     = (Inr 4 :: unit thrown + nat)"
  using
    pipe_spec [where k = 1 and v = "1 :: nat" and w = 2 and path = "[SStr ''test'']"
      and e = "ParserError [SStr ''test''] ''stop'' :: unit thrown"
      and qs = "[\<lambda>v path. Inr (v + 1), \<lambda>v path. Inl (ParserError path ''stop''),
                \<lambda>v path. Inr (v + 1)]"]
    pipe_spec [where v = "1 :: nat" and w = 3 and path = "[]" and f = "\<lambda>v path. Inr (v + 1)"
      and qs = "[\<lambda>v path. Inr (v + 1), \<lambda>v path. Inr (v + 1)] :: (nat, nat, unit) parser list"]
  by (simp add: pipe_Cons pipe_Nil)

section \<open>object\<close>







section \<open>The matcher on the duration grammar\<close>

subsection \<open>The states a matcher can finish in\<close>

lemma rx_Seq_mem:
  "st'' \<in> set (rx (Seq a b) st) \<longleftrightarrow> (\<exists>st' \<in> set (rx a st). st'' \<in> set (rx b st'))"
  by auto

lemma rx_Opt_mem: "st' \<in> set (rx (Opt a) st) \<longleftrightarrow> st' \<in> set (rx a st) \<or> st' = st"
  by auto

lemma rx_Alt_mem: "st' \<in> set (rx (Alt a b) st) \<longleftrightarrow> st' \<in> set (rx a st) \<or> st' \<in> set (rx b st)"
  by auto

lemma rx_Group_mem:
  "(j, u, h) \<in> set (rx (Group n a) (i, s, g)) \<longleftrightarrow>
     (\<exists>h0. (j, u, h0) \<in> set (rx a (i, s, g)) \<and> h = h0(n \<mapsto> take (length s - length u) s))"
proof
  assume "(j, u, h) \<in> set (rx (Group n a) (i, s, g))"
  then obtain x where x: "x \<in> set (rx a (i, s, g))"
    "(j, u, h) = (case x of (j, s', g') \<Rightarrow> (j, s', g'(n \<mapsto> take (length s - length s') s)))"
    by auto
  obtain j' u' h' where "x = (j', u', h')" by (rule prod_cases3)
  with x show "\<exists>h0. (j, u, h0) \<in> set (rx a (i, s, g)) \<and> h = h0(n \<mapsto> take (length s - length u) s)"
    by auto
next
  assume "\<exists>h0. (j, u, h0) \<in> set (rx a (i, s, g)) \<and> h = h0(n \<mapsto> take (length s - length u) s)"
  then obtain h0 where h0: "(j, u, h0) \<in> set (rx a (i, s, g))"
    "h = h0(n \<mapsto> take (length s - length u) s)" by blast
  have "(j, u, h) = (case (j, u, h0) of (j, s', g') \<Rightarrow> (j, s', g'(n \<mapsto> take (length s - length s') s)))"
    using h0(2) by simp
  with h0(1) show "(j, u, h) \<in> set (rx (Group n a) (i, s, g))"
    by (simp only: rx.simps set_map) (rule image_eqI[where x = "(j, u, h0)"], simp_all)
qed

lemma rx_Chr_mem:
  "(j, u, h) \<in> set (rx (Chr c) (i, s, g)) \<longleftrightarrow> s = c # u \<and> j = Suc i \<and> h = g"
  by (auto split: list.splits)

lemma rx_OneOf_mem:
  "(j, u, h) \<in> set (rx (OneOf cs) (i, s, g)) \<longleftrightarrow>
     (\<exists>c. s = c # u \<and> c \<in> set cs \<and> j = Suc i \<and> h = g)"
  by (cases s) auto

lemma rx_Eos_mem:
  "(j, u, h) \<in> set (rx Eos (i, s, g)) \<longleftrightarrow> s = [] \<and> u = [] \<and> j = i \<and> h = g"
  by auto

lemma rx_Bos_mem:
  "(j, u, h) \<in> set (rx Bos (i, s, g)) \<longleftrightarrow> i = 0 \<and> u = s \<and> j = i \<and> h = g"
  by auto

lemma star_digit_mem:
  "(j, u, h) \<in> set (star (rx Digit) n (i, s, g)) \<Longrightarrow>
   \<exists>ds. s = ds @ u \<and> (\<forall>c\<in>set ds. is_digit c) \<and> h = g"
proof (induction n arbitrary: i s)
  case 0
  then show ?case by simp
next
  case (Suc n)
  show ?case
  proof (cases s)
    case Nil
    with Suc.prems show ?thesis by simp
  next
    case (Cons x xs)
    show ?thesis
    proof (cases "is_digit x")
      case True
      with Suc.prems Cons have "(j, u, h) \<in> set (star (rx Digit) n (Suc i, xs, g)) \<or> (j, u, h) = (i, s, g)"
        by auto
      then show ?thesis
      proof
        assume "(j, u, h) \<in> set (star (rx Digit) n (Suc i, xs, g))"
        from Suc.IH[OF this] obtain ds where "xs = ds @ u" "\<forall>c\<in>set ds. is_digit c" "h = g"
          by blast
        with True Cons have "s = (x # ds) @ u \<and> (\<forall>c\<in>set (x # ds). is_digit c) \<and> h = g"
          by simp
        then show ?thesis by blast
      next
        assume "(j, u, h) = (i, s, g)"
        then show ?thesis by simp
      qed
    next
      case False
      with Suc.prems Cons show ?thesis by simp
    qed
  qed
qed

lemma rx_Star_Digit_mem:
  "(j, u, h) \<in> set (rx (Star Digit) (i, s, g)) \<Longrightarrow>
   \<exists>ds. s = ds @ u \<and> (\<forall>c\<in>set ds. is_digit c) \<and> h = g"
  by (auto dest: star_digit_mem)

lemma rx_Plus_Digit_mem:
  assumes "(j, u, h) \<in> set (rx (Plus Digit) (i, s, g))"
  shows "\<exists>ds. ds \<noteq> [] \<and> s = ds @ u \<and> (\<forall>c\<in>set ds. is_digit c) \<and> h = g"
proof (cases s)
  case Nil
  with assms show ?thesis by simp
next
  case (Cons x xs)
  show ?thesis
  proof (cases "is_digit x")
    case True
    with assms Cons have "(j, u, h) \<in> set (star (rx Digit) (length xs) (Suc i, xs, g))"
      by simp
    from star_digit_mem[OF this] obtain ds where "xs = ds @ u" "\<forall>c\<in>set ds. is_digit c" "h = g"
      by blast
    with True Cons have "x # ds \<noteq> [] \<and> s = (x # ds) @ u \<and> (\<forall>c\<in>set (x # ds). is_digit c) \<and> h = g"
      by simp
    then show ?thesis by blast
  next
    case False
    with assms Cons show ?thesis by simp
  qed
qed

lemma rx_Ahead_mem:
  assumes "(j, u, h) \<in> set (rx (Ahead (seqs [Chr d, Opt (Chr CHR ''T''), Eos])) (i, s, g))"
  shows "j = i \<and> u = s \<and> h = g \<and> (s = [d] \<or> s = [d, CHR ''T''])"
  using assms by (auto split: list.splits if_splits)

lemma frac_mem:
  assumes "(j, u, h) \<in> set (rx (seqs [Star Digit, OneOf '',.'', Plus Digit,
                  Ahead (seqs [Chr d, Opt (Chr CHR ''T''), Eos])]) (i, s, g))"
  shows "\<exists>ds c fs. (\<forall>c\<in>set ds. is_digit c) \<and> c \<in> set '',.'' \<and> fs \<noteq> [] \<and>
           (\<forall>c\<in>set fs. is_digit c) \<and> s = ds @ c # fs @ u \<and> (u = [d] \<or> u = [d, CHR ''T'']) \<and> h = g"
proof -
  from assms obtain st1 st2 st3 where
    1: "st1 \<in> set (rx (Star Digit) (i, s, g))" and
    2: "st2 \<in> set (rx (OneOf '',.'') st1)" and
    3: "st3 \<in> set (rx (Plus Digit) st2)" and
    4: "(j, u, h) \<in> set (rx (Ahead (seqs [Chr d, Opt (Chr CHR ''T''), Eos])) st3)"
    unfolding seqs.simps rx_Seq_mem by blast
  obtain i1 s1 g1 where st1: "st1 = (i1, s1, g1)" by (cases st1)
  obtain i2 s2 g2 where st2: "st2 = (i2, s2, g2)" by (cases st2)
  obtain i3 s3 g3 where st3: "st3 = (i3, s3, g3)" by (cases st3)
  from rx_Star_Digit_mem[OF 1[unfolded st1]] obtain ds where
    ds: "s = ds @ s1" "\<forall>c\<in>set ds. is_digit c" "g1 = g" by blast
  from 2[unfolded st1 st2 rx_OneOf_mem] obtain c where c: "s1 = c # s2" "c \<in> set '',.''" "g2 = g1"
    by blast
  from rx_Plus_Digit_mem[OF 3[unfolded st2 st3]] obtain fs where
    fs: "fs \<noteq> []" "s2 = fs @ s3" "\<forall>c\<in>set fs. is_digit c" "g3 = g2" by blast
  from rx_Ahead_mem[OF 4[unfolded st3]] have a: "u = s3" "h = g3" "s3 = [d] \<or> s3 = [d, CHR ''T'']"
    by blast+
  have "(\<forall>c\<in>set ds. is_digit c) \<and> c \<in> set '',.'' \<and> fs \<noteq> [] \<and>
           (\<forall>c\<in>set fs. is_digit c) \<and> s = ds @ c # fs @ u \<and> (u = [d] \<or> u = [d, CHR ''T'']) \<and> h = g"
    using ds c fs a by simp
  then show ?thesis by blast
qed

lemma element_mem:
  assumes "(j, u, h) \<in> set (rx (element d n) (i, s, g))"
  shows "(u = s \<and> h = g) \<or>
    (\<exists>ds. ds \<noteq> [] \<and> (\<forall>c\<in>set ds. is_digit c) \<and> s = ds @ d # u \<and> h = g(n \<mapsto> ds)) \<or>
    (\<exists>ds c fs. (\<forall>c\<in>set ds. is_digit c) \<and> c \<in> set '',.'' \<and> fs \<noteq> [] \<and>
        (\<forall>c\<in>set fs. is_digit c) \<and> s = ds @ c # fs @ d # u \<and> (u = [] \<or> u = ''T'') \<and>
        h = g(n \<mapsto> ds @ c # fs))"
proof -
  let ?frac = "seqs [Star Digit, OneOf '',.'', Plus Digit,
                  Ahead (seqs [Chr d, Opt (Chr CHR ''T''), Eos])]"
  from assms have "(j, u, h) = (i, s, g) \<or>
      (\<exists>st \<in> set (rx (Group n (Alt ?frac (Plus Digit))) (i, s, g)). (j, u, h) \<in> set (rx (Chr d) st))"
    unfolding element_def rx_Opt_mem rx_Seq_mem by blast
  then show ?thesis
  proof
    assume "(j, u, h) = (i, s, g)"
    then show ?thesis by simp
  next
    assume "\<exists>st \<in> set (rx (Group n (Alt ?frac (Plus Digit))) (i, s, g)). (j, u, h) \<in> set (rx (Chr d) st)"
    then obtain j1 u1 h1 where
      grp: "(j1, u1, h1) \<in> set (rx (Group n (Alt ?frac (Plus Digit))) (i, s, g))" and
      chr: "(j, u, h) \<in> set (rx (Chr d) (j1, u1, h1))"
      by (metis prod_cases3)
    from chr have u1: "u1 = d # u" "h = h1" by (simp_all add: rx_Chr_mem)
    from grp obtain h0 where
      inner: "(j1, u1, h0) \<in> set (rx ?frac (i, s, g)) \<or> (j1, u1, h0) \<in> set (rx (Plus Digit) (i, s, g))" and
      h1: "h1 = h0(n \<mapsto> take (length s - length u1) s)"
      unfolding rx_Group_mem rx_Alt_mem by blast
    from inner show ?thesis
    proof
      assume "(j1, u1, h0) \<in> set (rx ?frac (i, s, g))"
      from frac_mem[OF this] obtain ds c fs where
        f: "\<forall>c\<in>set ds. is_digit c" "c \<in> set '',.''" "fs \<noteq> []" "\<forall>c\<in>set fs. is_digit c"
          "s = ds @ c # fs @ u1" "u1 = [d] \<or> u1 = [d, CHR ''T'']" "h0 = g"
        by blast
      from f(5) have "take (length s - length u1) s = ds @ c # fs" by simp
      with f u1 h1 show ?thesis by auto
    next
      assume "(j1, u1, h0) \<in> set (rx (Plus Digit) (i, s, g))"
      from rx_Plus_Digit_mem[OF this] obtain ds where
        p: "ds \<noteq> []" "s = ds @ u1" "\<forall>c\<in>set ds. is_digit c" "h0 = g" by blast
      from p(2) have "take (length s - length u1) s = ds" by simp
      with p u1 h1 show ?thesis by auto
    qed
  qed
qed

subsection \<open>A fractional quantity leaves no later quantity\<close>

lemma triple_Seq: "triple P a Q \<Longrightarrow> triple Q b R \<Longrightarrow> triple P (Seq a b) R"
  unfolding triple_def rx_Seq_mem by blast

lemma triple_Opt: "triple P a Q \<Longrightarrow> (\<And>st. P st \<Longrightarrow> Q st) \<Longrightarrow> triple P (Opt a) Q"
  unfolding triple_def rx_Opt_mem by blast

lemma length_quantity_names: "length quantity_names = 7"
  by (simp add: quantity_names_def)

lemma distinct_quantity_names: "distinct quantity_names"
  by (simp add: quantity_names_def)

lemma quantity_names_neq:
  "l < 7 \<Longrightarrow> k < 7 \<Longrightarrow> l \<noteq> k \<Longrightarrow> quantity_names ! l \<noteq> quantity_names ! k"
  using distinct_quantity_names by (simp add: nth_eq_iff_index_eq length_quantity_names)

lemma digit_not_separator: "is_digit c \<Longrightarrow> c \<noteq> CHR '','' \<and> c \<noteq> CHR ''.'' \<and> c \<noteq> CHR ''T''"
  by (auto simp: is_digit_def)

lemma not_fractional_digits: "\<forall>c\<in>set ds. is_digit c \<Longrightarrow> \<not> fractional (Some ds)"
  by (auto simp: fractional_def dest: digit_not_separator)

lemma triple_element:
  assumes k: "k < 7"
  shows "triple (fraction_inv k) (element d (quantity_names ! k)) (fraction_inv (Suc k))"
  unfolding triple_def
proof (intro allI impI)
  fix st st' :: mstate
  assume inv: "fraction_inv k st" and mem: "st' \<in> set (rx (element d (quantity_names ! k)) st)"
  obtain i s g where st: "st = (i, s, g)" by (rule prod_cases3)
  obtain j u h where st': "st' = (j, u, h)" by (rule prod_cases3)
  let ?n = "quantity_names ! k"
  from inv st have later: "\<And>l. k \<le> l \<Longrightarrow> l < 7 \<Longrightarrow> g (quantity_names ! l) = None"
    and earlier: "\<And>j. j < k \<Longrightarrow> fractional (g (quantity_names ! j)) \<Longrightarrow>
           (s = [] \<or> s = ''T'') \<and> (\<forall>l. j < l \<and> l < 7 \<longrightarrow> g (quantity_names ! l) = None)"
    by (simp_all add: fraction_inv_def length_quantity_names)
  have keep: "\<And>l t. l < 7 \<Longrightarrow> l \<noteq> k \<Longrightarrow> (g(?n \<mapsto> t)) (quantity_names ! l) = g (quantity_names ! l)"
    using quantity_names_neq[OF _ k] by simp
  from element_mem[OF mem[unfolded st st']]
  consider
    (skip) "u = s" "h = g"
  | (whole) ds where "ds \<noteq> []" "\<forall>c\<in>set ds. is_digit c" "s = ds @ d # u" "h = g(?n \<mapsto> ds)"
  | (frac) ds c fs where "\<forall>c\<in>set ds. is_digit c" "c \<in> set '',.''" "fs \<noteq> []"
      "\<forall>c\<in>set fs. is_digit c" "s = ds @ c # fs @ d # u" "u = [] \<or> u = ''T''"
      "h = g(?n \<mapsto> ds @ c # fs)"
    by blast
  then have "fraction_inv (Suc k) (j, u, h)"
  proof cases
    case skip
    have "\<not> fractional (g ?n)" using later[of k] k by (simp add: fractional_def)
    then have nk: "\<And>j. j < Suc k \<Longrightarrow> fractional (g (quantity_names ! j)) \<Longrightarrow> j < k"
      by (metis less_antisym)
    show ?thesis
      unfolding fraction_inv_def length_quantity_names prod.case skip
    proof (intro conjI allI impI)
      fix l assume "Suc k \<le> l \<and> l < 7"
      then show "g (quantity_names ! l) = None"
        using later[of l] by simp
    next
      fix j assume j: "j < Suc k" and f: "fractional (g (quantity_names ! j))"
      from earlier[OF nk[OF j f] f] show "s = [] \<or> s = ''T''" by blast
      fix l assume "j < l \<and> l < 7"
      with earlier[OF nk[OF j f] f] show "g (quantity_names ! l) = None" by blast
    qed
  next
    case whole
    from whole(1) obtain x xs where ds: "ds = x # xs" by (cases ds) simp_all
    with whole(2) have "x \<noteq> CHR ''T''" using digit_not_separator[of x] by simp
    with whole(3) ds have s: "s \<noteq> []" "s \<noteq> ''T''" by simp_all
    with earlier have nofrac: "\<And>j. j < k \<Longrightarrow> \<not> fractional (g (quantity_names ! j))"
      by blast
    show ?thesis
      unfolding fraction_inv_def length_quantity_names prod.case
    proof (intro conjI allI impI)
      fix l assume "Suc k \<le> l \<and> l < 7"
      then show "h (quantity_names ! l) = None"
        using later[of l] keep[of l] whole(4) by simp
    next
      fix j assume j: "j < Suc k" and f: "fractional (h (quantity_names ! j))"
      have False
      proof (cases "j = k")
        case True
        with f whole(4) not_fractional_digits[OF whole(2)] show False by simp
      next
        case False
        with j have "j < k" by simp
        with f nofrac[of j] keep[of j] k whole(4) show False by simp
      qed
      then show "u = [] \<or> u = ''T''" 
        and "\<And>l. j < l \<and> l < 7 \<Longrightarrow> h (quantity_names ! l) = None" by blast+
    qed
  next
    case frac
    have s: "s \<noteq> [] \<and> s \<noteq> ''T''"
    proof (cases ds)
      case Nil
      with frac(2,5) show ?thesis by auto
    next
      case (Cons x xs)
      with frac(1) have "x \<noteq> CHR ''T''" using digit_not_separator[of x] by simp
      with frac(5) Cons show ?thesis by simp
    qed
    with earlier have nofrac: "\<And>j. j < k \<Longrightarrow> \<not> fractional (g (quantity_names ! j))"
      by blast
    show ?thesis
      unfolding fraction_inv_def length_quantity_names prod.case
    proof (intro conjI allI impI)
      fix l assume "Suc k \<le> l \<and> l < 7"
      then show "h (quantity_names ! l) = None"
        using later[of l] keep[of l] frac(7) by simp
    next
      fix j assume j: "j < Suc k" and f: "fractional (h (quantity_names ! j))"
      have jk: "j = k"
      proof (rule ccontr)
        assume "j \<noteq> k"
        with j have "j < k" by simp
        with f nofrac[of j] keep[of j] k frac(7) show False by simp
      qed
      show "u = [] \<or> u = ''T''" by (rule frac(6))
      fix l assume "j < l \<and> l < 7"
      with jk show "h (quantity_names ! l) = None"
        using later[of l] keep[of l] frac(7) by simp
    qed
  qed
  with st' show "fraction_inv (Suc k) st'" by simp
qed

lemma triple_Chr_inv: "triple (fraction_inv k) (Chr c) (fraction_inv k)"
  unfolding triple_def
proof (intro allI impI)
  fix st st' :: mstate
  assume inv: "fraction_inv k st" and mem: "st' \<in> set (rx (Chr c) st)"
  obtain i s g where st: "st = (i, s, g)" by (rule prod_cases3)
  obtain j u h where st': "st' = (j, u, h)" by (rule prod_cases3)
  from mem st st' have m: "s = c # u" "h = g" by (simp_all add: rx_Chr_mem)
  then have "s = [] \<or> s = ''T'' \<Longrightarrow> u = [] \<or> u = ''T''" by simp
  with inv st st' m show "fraction_inv k st'"
    unfolding fraction_inv_def by simp
qed

lemma triple_Bos: "triple P Bos P"
  unfolding triple_def by (auto simp: rx_Bos_mem)

lemma triple_Eos: "triple P Eos P"
  unfolding triple_def by (auto simp: rx_Eos_mem)

lemma triple_negative:
  "triple (fraction_inv 0) (Opt (Group ''negative'' (Chr CHR ''-''))) (fraction_inv 0)"
  unfolding triple_def
proof (intro allI impI)
  fix st st' :: mstate
  assume inv: "fraction_inv 0 st"
    and mem: "st' \<in> set (rx (Opt (Group ''negative'' (Chr CHR ''-''))) st)"
  obtain i s g where st: "st = (i, s, g)" by (rule prod_cases3)
  obtain j u h where st': "st' = (j, u, h)" by (rule prod_cases3)
  from mem st st' have "h = g \<or> (\<exists>t. h = g(''negative'' \<mapsto> t))"
    unfolding rx_Opt_mem rx_Group_mem rx_Chr_mem by auto
  moreover have "\<And>l. l < 7 \<Longrightarrow> quantity_names ! l \<noteq> ''negative''"
    by (auto simp: quantity_names_def less_Suc_eq numeral_eq_Suc)
  ultimately show "fraction_inv 0 st'"
    using inv st st' unfolding fraction_inv_def length_quantity_names by auto
qed

lemma fraction_inv_skip_time: "fraction_inv 4 st \<Longrightarrow> fraction_inv 7 st"
proof -
  assume inv: "fraction_inv 4 st"
  obtain i s g where st: "st = (i, s, g)" by (rule prod_cases3)
  from inv st have later: "\<And>l. 4 \<le> l \<Longrightarrow> l < 7 \<Longrightarrow> g (quantity_names ! l) = None"
    and earlier: "\<And>j. j < 4 \<Longrightarrow> fractional (g (quantity_names ! j)) \<Longrightarrow>
           (s = [] \<or> s = ''T'') \<and> (\<forall>l. j < l \<and> l < 7 \<longrightarrow> g (quantity_names ! l) = None)"
    by (simp_all add: fraction_inv_def length_quantity_names)
  have "\<And>j. j < 7 \<Longrightarrow> fractional (g (quantity_names ! j)) \<Longrightarrow> j < 4"
  proof (rule ccontr)
    fix j assume "j < 7" "fractional (g (quantity_names ! j))" "\<not> j < 4"
    with later[of j] show False by (simp add: fractional_def)
  qed
  then have all: "\<And>j. j < 7 \<Longrightarrow> fractional (g (quantity_names ! j)) \<Longrightarrow>
           (s = [] \<or> s = ''T'') \<and> (\<forall>l. j < l \<and> l < 7 \<longrightarrow> g (quantity_names ! l) = None)"
    using earlier by blast
  show ?thesis
    unfolding st fraction_inv_def length_quantity_names prod.case
  proof (intro conjI allI impI)
    fix l :: nat assume "7 \<le> l \<and> l < 7"
    then show "g (quantity_names ! l) = None" by linarith
  next
    fix j :: nat assume "j < 7" "fractional (g (quantity_names ! j))"
    from all[OF this] show "s = [] \<or> s = ''T''"
      and "\<And>l. j < l \<and> l < 7 \<Longrightarrow> g (quantity_names ! l) = None" by blast+
  qed
qed

lemma ISO_DURATION_REGEXP_unfold:
  "ISO_DURATION_REGEXP =
     Seq Bos (Seq (Opt (Group ''negative'' (Chr CHR ''-''))) (Seq (Chr CHR ''P'')
       (Seq (element CHR ''Y'' (quantity_names ! 0)) (Seq (element CHR ''M'' (quantity_names ! 1))
       (Seq (element CHR ''W'' (quantity_names ! 2)) (Seq (element CHR ''D'' (quantity_names ! 3))
       (Seq (Opt (Seq (Chr CHR ''T'') (Seq (element CHR ''H'' (quantity_names ! 4))
          (Seq (element CHR ''M'' (quantity_names ! 5)) (element CHR ''S'' (quantity_names ! 6))))))
        Eos)))))))"
  by (simp add: ISO_DURATION_REGEXP_def quantity_names_def)

lemma triple_element_to:
  "k < 7 \<Longrightarrow> k' = Suc k \<Longrightarrow>
   triple (fraction_inv k) (element d (quantity_names ! k)) (fraction_inv k')"
  using triple_element by simp

lemma triple_time_half:
  "triple (fraction_inv 4)
     (Opt (Seq (Chr CHR ''T'') (Seq (element CHR ''H'' (quantity_names ! 4))
          (Seq (element CHR ''M'' (quantity_names ! 5)) (element CHR ''S'' (quantity_names ! 6))))))
     (fraction_inv 7)"
proof (rule triple_Opt)
  have "triple (fraction_inv 4) (element CHR ''H'' (quantity_names ! 4)) (fraction_inv 5)"
    by (rule triple_element_to) simp_all
  moreover have "triple (fraction_inv 5) (element CHR ''M'' (quantity_names ! 5)) (fraction_inv 6)"
    by (rule triple_element_to) simp_all
  moreover have "triple (fraction_inv 6) (element CHR ''S'' (quantity_names ! 6)) (fraction_inv 7)"
    by (rule triple_element_to) simp_all
  ultimately show "triple (fraction_inv 4)
     (Seq (Chr CHR ''T'') (Seq (element CHR ''H'' (quantity_names ! 4))
          (Seq (element CHR ''M'' (quantity_names ! 5)) (element CHR ''S'' (quantity_names ! 6)))))
     (fraction_inv 7)"
    by (intro triple_Seq[OF triple_Chr_inv] triple_Seq)
qed (rule fraction_inv_skip_time)

lemma triple_ISO: "triple (fraction_inv 0) ISO_DURATION_REGEXP (fraction_inv 7)"
proof -
  have "triple (fraction_inv 0) (element CHR ''Y'' (quantity_names ! 0)) (fraction_inv 1)"
    by (rule triple_element_to) simp_all
  moreover have "triple (fraction_inv 1) (element CHR ''M'' (quantity_names ! 1)) (fraction_inv 2)"
    by (rule triple_element_to) simp_all
  moreover have "triple (fraction_inv 2) (element CHR ''W'' (quantity_names ! 2)) (fraction_inv 3)"
    by (rule triple_element_to) simp_all
  moreover have "triple (fraction_inv 3) (element CHR ''D'' (quantity_names ! 3)) (fraction_inv 4)"
    by (rule triple_element_to) simp_all
  ultimately show ?thesis
    unfolding ISO_DURATION_REGEXP_unfold
    by (intro triple_Seq[OF triple_Bos] triple_Seq[OF triple_negative]
        triple_Seq[OF triple_Chr_inv] triple_Seq[OF _ triple_Seq[OF triple_time_half triple_Eos]]
        triple_Seq)
qed

text \<open>
  The expression starts with the assertion of the start of the input, so \<open>exec\<close>
  can only match from index 0.
\<close>

lemma exec_from_later:
  "(\<And>i s g. rx r (Suc i, s, g) = []) \<Longrightarrow> exec_from r (Suc i) s = None"
  by (induction s arbitrary: i) simp_all

lemma rx_ISO_later: "rx ISO_DURATION_REGEXP (Suc i, s, g) = []"
  unfolding ISO_DURATION_REGEXP_unfold by simp

lemma exec_ISO:
  "exec ISO_DURATION_REGEXP s =
     (case rx ISO_DURATION_REGEXP (0, s, Map.empty) of [] \<Rightarrow> None | (j, u, g) # _ \<Rightarrow> Some g)"
  unfolding exec_def
  by (cases s) (simp_all add: exec_from_later[OF rx_ISO_later] split: list.splits)

lemma exec_ISO_mem:
  "exec ISO_DURATION_REGEXP s = Some g \<Longrightarrow>
   \<exists>j u. (j, u, g) \<in> set (rx ISO_DURATION_REGEXP (0, s, Map.empty))"
  unfolding exec_ISO by (auto split: list.splits)

lemma exec_fraction_last:
  assumes "exec ISO_DURATION_REGEXP s = Some g"
    and "j < l" "l < length quantity_names" "fractional (g (quantity_names ! j))"
  shows "g (quantity_names ! l) = None"
proof -
  from exec_ISO_mem[OF assms(1)] obtain i u where
    "(i, u, g) \<in> set (rx ISO_DURATION_REGEXP (0, s, Map.empty))" by blast
  moreover have "fraction_inv 0 (0, s, Map.empty)"
    by (simp add: fraction_inv_def)
  ultimately have "fraction_inv 7 (i, u, g)"
    using triple_ISO unfolding triple_def by blast
  then have "\<forall>j<7. fractional (g (quantity_names ! j)) \<longrightarrow>
      (\<forall>l. j < l \<and> l < 7 \<longrightarrow> g (quantity_names ! l) = None)"
    unfolding fraction_inv_def length_quantity_names by simp
  moreover from assms(2,3) have "j < 7" "l < 7"
    by (simp_all add: length_quantity_names)
  ultimately show ?thesis
    using assms(2,4) by blast
qed

subsection \<open>An input with a fraction that is not last has no match\<close>

lemma fraction_not_last_prefix:
  "(\<And>c. c \<in> set p \<Longrightarrow> c \<notin> set '',.'') \<Longrightarrow> fraction_not_last (p @ s) = fraction_not_last s"
  unfolding fraction_not_last_def by (simp add: dropWhile_append2)

lemma fraction_not_last_final:
  assumes "\<forall>c\<in>set ds. is_digit c" "c \<in> set '',.''" "\<forall>c\<in>set fs. is_digit c"
    "\<not> is_digit d" "u = [] \<or> u = ''T''"
  shows "\<not> fraction_not_last (ds @ c # fs @ d # u)"
proof -
  have "dropWhile (\<lambda>c. c \<notin> set '',.'') (ds @ c # fs @ d # u) = c # fs @ d # u"
    using assms(1,2) digit_not_separator by (subst dropWhile_append2) auto
  moreover have "dropWhile is_digit (fs @ d # u) = d # u"
    using assms(3,4) by (subst dropWhile_append2) auto
  moreover have "\<not> is_digit CHR ''T''" by (simp add: is_digit_def)
  ultimately show ?thesis
    using assms(4,5) unfolding fraction_not_last_def by auto
qed

lemma dropWhile_keeps:
  "\<not> P x \<Longrightarrow> y \<in> set r \<Longrightarrow> y \<in> set (dropWhile P (m @ x # r))"
  by (induction m) auto

lemma fraction_not_last_decomp:
  assumes "c \<in> set '',.''" "\<not> is_digit x" "is_digit y"
  shows "fraction_not_last (a @ c # m @ x # m' @ y # z)"
proof -
  have "\<exists>m0 x0 r. \<not> is_digit x0 \<and> y \<in> set r \<and>
      tl (dropWhile (\<lambda>c. c \<notin> set '',.'') (a @ c # m @ x # m' @ y # z)) = m0 @ x0 # r"
  proof (induction a)
    case Nil
    have "tl (dropWhile (\<lambda>c. c \<notin> set '',.'') ([] @ c # m @ x # m' @ y # z)) = m @ x # (m' @ y # z)"
      using assms(1) by auto
    with assms(2) show ?case by (intro exI[of _ m] exI[of _ x] exI[of _ "m' @ y # z"]) simp
  next
    case (Cons b a)
    show ?case
    proof (cases "b \<in> set '',.''")
      case True
      then have "\<not> is_digit c" using assms(1) digit_not_separator[of c] by auto
      moreover have "tl (dropWhile (\<lambda>c. c \<notin> set '',.'') ((b # a) @ c # m @ x # m' @ y # z))
          = a @ c # (m @ x # m' @ y # z)"
        using True by auto
      ultimately show ?thesis
        by (intro exI[of _ a] exI[of _ c] exI[of _ "m @ x # m' @ y # z"]) simp
    next
      case False
      with Cons.IH show ?thesis by simp
    qed
  qed
  then obtain m0 x0 r where "\<not> is_digit x0" "y \<in> set r"
    "tl (dropWhile (\<lambda>c. c \<notin> set '',.'') (a @ c # m @ x # m' @ y # z)) = m0 @ x0 # r"
    by blast
  with assms(3) show ?thesis
    unfolding fraction_not_last_def using dropWhile_keeps[of is_digit x0 y r m0] by auto
qed

lemma pending_Chr: "c \<notin> set '',.'' \<Longrightarrow> triple pending (Chr c) pending"
  unfolding triple_def
proof (intro allI impI)
  fix st st' :: mstate
  assume c: "c \<notin> set '',.''" and p: "pending st" and mem: "st' \<in> set (rx (Chr c) st)"
  obtain i s g where st: "st = (i, s, g)" by (rule prod_cases3)
  obtain j u h where st': "st' = (j, u, h)" by (rule prod_cases3)
  from mem st st' have "s = [c] @ u" by (simp add: rx_Chr_mem)
  with p st st' c fraction_not_last_prefix[of "[c]" u] show "pending st'" by simp
qed

lemma pending_negative: "triple pending (Opt (Group ''negative'' (Chr CHR ''-''))) pending"
  unfolding triple_def
proof (intro allI impI)
  fix st st' :: mstate
  assume p: "pending st" and mem: "st' \<in> set (rx (Opt (Group ''negative'' (Chr CHR ''-''))) st)"
  obtain i s g where st: "st = (i, s, g)" by (rule prod_cases3)
  obtain j u h where st': "st' = (j, u, h)" by (rule prod_cases3)
  from mem st st' have "u = s \<or> s = ''-'' @ u"
    unfolding rx_Opt_mem rx_Group_mem rx_Chr_mem by auto
  with p st st' fraction_not_last_prefix[of "''-''" u] show "pending st'" by auto
qed

lemma pending_element:
  assumes "\<not> is_digit d" "d \<notin> set '',.''"
  shows "triple pending (element d n) pending"
  unfolding triple_def
proof (intro allI impI)
  fix st st' :: mstate
  assume p: "pending st" and mem: "st' \<in> set (rx (element d n) st)"
  obtain i s g where st: "st = (i, s, g)" by (rule prod_cases3)
  obtain j u h where st': "st' = (j, u, h)" by (rule prod_cases3)
  from element_mem[OF mem[unfolded st st']]
  consider
    (skip) "u = s" "h = g"
  | (whole) ds where "ds \<noteq> []" "\<forall>c\<in>set ds. is_digit c" "s = ds @ d # u" "h = g(n \<mapsto> ds)"
  | (frac) ds c fs where "\<forall>c\<in>set ds. is_digit c" "c \<in> set '',.''" "fs \<noteq> []"
      "\<forall>c\<in>set fs. is_digit c" "s = ds @ c # fs @ d # u" "u = [] \<or> u = ''T''"
      "h = g(n \<mapsto> ds @ c # fs)"
    by blast
  then have "fraction_not_last u"
  proof cases
    case skip
    with p st show ?thesis by simp
  next
    case whole
    have "\<And>c. c \<in> set (ds @ [d]) \<Longrightarrow> c \<notin> set '',.''"
      using whole(2) assms(2) digit_not_separator by auto
    then have "fraction_not_last ((ds @ [d]) @ u) = fraction_not_last u"
      by (rule fraction_not_last_prefix)
    with whole(3) p st show ?thesis by simp
  next
    case frac
    from fraction_not_last_final[OF frac(1,2,4) assms(1) frac(6)] frac(5) p st
    show ?thesis by simp
  qed
  with st' show "pending st'" by simp
qed

lemma pending_Eos: "triple pending Eos (\<lambda>st. False)"
  unfolding triple_def by (auto simp: rx_Eos_mem fraction_not_last_def)

lemma designators:
  "\<not> is_digit CHR ''Y''" "\<not> is_digit CHR ''M''" "\<not> is_digit CHR ''W''" "\<not> is_digit CHR ''D''"
  "\<not> is_digit CHR ''H''" "\<not> is_digit CHR ''S''"
  by (simp_all add: is_digit_def)

lemma pending_ISO: "triple pending ISO_DURATION_REGEXP (\<lambda>st. False)"
  unfolding ISO_DURATION_REGEXP_unfold
  by (intro triple_Seq[OF triple_Bos] triple_Seq[OF pending_negative]
      triple_Seq[OF pending_Chr] triple_Seq[OF pending_element]
      triple_Seq[OF triple_Opt pending_Eos] pending_element)
     (simp_all add: designators)

lemma fraction_not_last_rejected:
  assumes "fraction_not_last s"
  shows "exec ISO_DURATION_REGEXP s = None"
proof (rule ccontr)
  assume "exec ISO_DURATION_REGEXP s \<noteq> None"
  then obtain g where "exec ISO_DURATION_REGEXP s = Some g" by blast
  from exec_ISO_mem[OF this] obtain i u where
    "(i, u, g) \<in> set (rx ISO_DURATION_REGEXP (0, s, Map.empty))" by blast
  with pending_ISO assms show False
    unfolding triple_def by force
qed

subsection \<open>An input without T, and the same input followed by T\<close>

lemma with_T_simp [simp]: "with_T (j, u, h) = (j, u @ ''T'', h)"
  by (simp add: with_T_def)

lemma T_stableD1:
  "T_stable r \<Longrightarrow> CHR ''T'' \<notin> set s \<Longrightarrow> rx r (i, s @ ''T'', g) = map with_T (rx r (i, s, g))"
  unfolding T_stable_def by blast

lemma T_stableD2:
  "T_stable r \<Longrightarrow> CHR ''T'' \<notin> set s \<Longrightarrow> (j, u, h) \<in> set (rx r (i, s, g)) \<Longrightarrow> CHR ''T'' \<notin> set u"
  unfolding T_stable_def by fastforce

lemma T_stableI:
  assumes "\<And>i s g. CHR ''T'' \<notin> set s \<Longrightarrow> rx r (i, s @ ''T'', g) = map with_T (rx r (i, s, g))"
    and "\<And>i s g j u h. CHR ''T'' \<notin> set s \<Longrightarrow> (j, u, h) \<in> set (rx r (i, s, g)) \<Longrightarrow> CHR ''T'' \<notin> set u"
  shows "T_stable r"
  unfolding T_stable_def using assms by fastforce

lemma concat_map_cong:
  "(\<And>x. x \<in> set xs \<Longrightarrow> f x = g x) \<Longrightarrow> concat (map f xs) = concat (map g xs)"
  by (induction xs) simp_all

lemma T_stable_Chr: "c \<noteq> CHR ''T'' \<Longrightarrow> T_stable (Chr c)"
  by (rule T_stableI) (auto split: list.splits if_splits)

lemma T_stable_Digit: "T_stable Digit"
  by (rule T_stableI) (auto simp: is_digit_def split: list.splits if_splits)

lemma T_stable_OneOf: "CHR ''T'' \<notin> set cs \<Longrightarrow> T_stable (OneOf cs)"
  by (rule T_stableI) (auto split: list.splits if_splits)

lemma T_stable_Bos: "T_stable Bos"
  by (rule T_stableI) auto

lemma T_stable_Seq:
  assumes a: "T_stable a" and b: "T_stable b"
  shows "T_stable (Seq a b)"
proof (rule T_stableI)
  fix i s g
  assume s: "CHR ''T'' \<notin> set s"
  have "concat (map (rx b) (map with_T (rx a (i, s, g)))) =
        concat (map (\<lambda>st. map with_T (rx b st)) (rx a (i, s, g)))"
    unfolding map_map
  proof (rule concat_map_cong)
    fix x assume x: "x \<in> set (rx a (i, s, g))"
    obtain j u h where xe: "x = (j, u, h)" by (rule prod_cases3)
    with x T_stableD2[OF a s] have "CHR ''T'' \<notin> set u" by blast
    from T_stableD1[OF b this] xe show "(rx b \<circ> with_T) x = map with_T (rx b x)" by simp
  qed
  then show "rx (Seq a b) (i, s @ ''T'', g) = map with_T (rx (Seq a b) (i, s, g))"
    by (simp add: T_stableD1[OF a s] map_concat comp_def)
next
  fix i s g j u h
  assume s: "CHR ''T'' \<notin> set s" and m: "(j, u, h) \<in> set (rx (Seq a b) (i, s, g))"
  from m obtain st where st: "st \<in> set (rx a (i, s, g))" "(j, u, h) \<in> set (rx b st)"
    unfolding rx_Seq_mem by blast
  obtain j1 u1 h1 where "st = (j1, u1, h1)" by (rule prod_cases3)
  with st T_stableD2[OF a s] T_stableD2[OF b] show "CHR ''T'' \<notin> set u" by blast
qed

lemma T_stable_Alt: "T_stable a \<Longrightarrow> T_stable b \<Longrightarrow> T_stable (Alt a b)"
  by (rule T_stableI) (auto simp: T_stableD1 dest: T_stableD2)

lemma T_stable_Opt: "T_stable a \<Longrightarrow> T_stable (Opt a)"
  by (rule T_stableI) (auto simp: T_stableD1 dest: T_stableD2)

lemma T_stable_Group:
  assumes a: "T_stable a"
  shows "T_stable (Group n a)"
proof (rule T_stableI)
  fix i s g
  assume s: "CHR ''T'' \<notin> set s"
  have "\<And>st. (case with_T st of (j, s', g') \<Rightarrow>
           (j, s', g'(n \<mapsto> take (length (s @ ''T'') - length s') (s @ ''T'')))) =
        with_T (case st of (j, s', g') \<Rightarrow> (j, s', g'(n \<mapsto> take (length s - length s') s)))"
    by (auto simp: with_T_def split: prod.splits)
  then show "rx (Group n a) (i, s @ ''T'', g) = map with_T (rx (Group n a) (i, s, g))"
    by (simp add: T_stableD1[OF a s] comp_def)
next
  fix i s g j u h
  assume s: "CHR ''T'' \<notin> set s" and m: "(j, u, h) \<in> set (rx (Group n a) (i, s, g))"
  then show "CHR ''T'' \<notin> set u"
    unfolding rx_Group_mem using T_stableD2[OF a s] by blast
qed

lemma star_digit_T:
  "CHR ''T'' \<notin> set s \<Longrightarrow> length s \<le> n \<Longrightarrow> length s < m \<Longrightarrow>
   star (rx Digit) m (i, s @ ''T'', g) = map with_T (star (rx Digit) n (i, s, g))"
proof (induction s arbitrary: n m i)
  case Nil
  have "\<not> is_digit CHR ''T''" by (simp add: is_digit_def)
  then have "star (rx Digit) m (i, ''T'', g) = [(i, ''T'', g)]"
    using Nil.prems(3) by (cases m) simp_all
  moreover have "star (rx Digit) n (i, [], g) = [(i, [], g)]"
    by (cases n) simp_all
  ultimately show ?case by simp
next
  case (Cons x xs)
  from Cons.prems obtain n' m' where nm: "n = Suc n'" "m = Suc m'" "length xs \<le> n'" "length xs < m'"
    by (cases n; cases m) simp_all
  from Cons.prems(1) have xs: "CHR ''T'' \<notin> set xs" by simp
  show ?case
  proof (cases "is_digit x")
    case True
    with Cons.IH[OF xs nm(3,4), of "Suc i"] nm(1,2) show ?thesis by simp
  next
    case False
    with nm(1,2) show ?thesis by simp
  qed
qed

lemma T_stable_Star_Digit: "T_stable (Star Digit)"
proof (rule T_stableI)
  fix i s g
  assume "CHR ''T'' \<notin> set s"
  then show "rx (Star Digit) (i, s @ ''T'', g) = map with_T (rx (Star Digit) (i, s, g))"
    using star_digit_T[of s "length s" "Suc (length s)" i g] by simp
next
  fix i s g j u h
  assume "CHR ''T'' \<notin> set s" "(j, u, h) \<in> set (rx (Star Digit) (i, s, g))"
  with rx_Star_Digit_mem[of j u h i s g] show "CHR ''T'' \<notin> set u" by auto
qed

lemma T_stable_Plus_Digit: "T_stable (Plus Digit)"
proof (rule T_stableI)
  fix i s g
  assume s: "CHR ''T'' \<notin> set s"
  show "rx (Plus Digit) (i, s @ ''T'', g) = map with_T (rx (Plus Digit) (i, s, g))"
  proof (cases s)
    case Nil
    then show ?thesis by (simp add: is_digit_def)
  next
    case (Cons x xs)
    with s have "CHR ''T'' \<notin> set xs" by simp
    from star_digit_T[OF this, of "length xs" "Suc (length xs)" "Suc i" g] Cons
    show ?thesis by simp
  qed
next
  fix i s g j u h
  assume "CHR ''T'' \<notin> set s" "(j, u, h) \<in> set (rx (Plus Digit) (i, s, g))"
  with rx_Plus_Digit_mem[of j u h i s g] show "CHR ''T'' \<notin> set u" by auto
qed

lemma rx_Ahead_eq:
  "rx (Ahead (seqs [Chr d, Opt (Chr CHR ''T''), Eos])) (i, s, g) =
     (if s = [d] \<or> s = [d, CHR ''T''] then [(i, s, g)] else [])"
  by (auto split: list.splits)

lemma T_stable_Ahead:
  assumes "d \<noteq> CHR ''T''"
  shows "T_stable (Ahead (seqs [Chr d, Opt (Chr CHR ''T''), Eos]))"
proof (rule T_stableI)
  fix i s g
  assume s: "CHR ''T'' \<notin> set s"
  then have "s \<noteq> [d, CHR ''T'']" by auto
  moreover have "s @ ''T'' \<noteq> [d]" using assms by (cases s) auto
  moreover have "s @ ''T'' = [d, CHR ''T''] \<longleftrightarrow> s = [d]"
    by (cases s) auto
  ultimately show "rx (Ahead (seqs [Chr d, Opt (Chr CHR ''T''), Eos])) (i, s @ ''T'', g) =
      map with_T (rx (Ahead (seqs [Chr d, Opt (Chr CHR ''T''), Eos])) (i, s, g))"
    unfolding rx_Ahead_eq by simp
next
  fix i s g j u h
  assume "CHR ''T'' \<notin> set s"
    "(j, u, h) \<in> set (rx (Ahead (seqs [Chr d, Opt (Chr CHR ''T''), Eos])) (i, s, g))"
  then show "CHR ''T'' \<notin> set u"
    unfolding rx_Ahead_eq by (auto split: if_splits)
qed

lemma T_stable_element: "d \<noteq> CHR ''T'' \<Longrightarrow> T_stable (element d n)"
  unfolding element_def seqs.simps
  by (intro T_stable_Opt T_stable_Seq T_stable_Group T_stable_Alt T_stable_Star_Digit
      T_stable_OneOf T_stable_Plus_Digit T_stable_Chr T_stable_Ahead[unfolded seqs.simps])
     simp_all

lemma T_blind_Seq:
  assumes a: "T_stable a" and b: "T_blind b"
  shows "T_blind (Seq a b)"
  unfolding T_blind_def
proof (intro allI impI)
  fix i s g
  assume s: "CHR ''T'' \<notin> set s"
  have "concat (map (\<lambda>st. map (\<lambda>st. snd (snd st)) (rx b (with_T st))) (rx a (i, s, g))) =
        concat (map (\<lambda>st. map (\<lambda>st. snd (snd st)) (rx b st)) (rx a (i, s, g)))"
  proof (rule concat_map_cong)
    fix x assume x: "x \<in> set (rx a (i, s, g))"
    obtain j u h where xe: "x = (j, u, h)" by (rule prod_cases3)
    with x T_stableD2[OF a s] have "CHR ''T'' \<notin> set u" by blast
    with b xe show "map (\<lambda>st. snd (snd st)) (rx b (with_T x)) = map (\<lambda>st. snd (snd st)) (rx b x)"
      unfolding T_blind_def by simp
  qed
  then show "map (\<lambda>st. snd (snd st)) (rx (Seq a b) (i, s @ ''T'', g)) =
      map (\<lambda>st. snd (snd st)) (rx (Seq a b) (i, s, g))"
    by (simp add: T_stableD1[OF a s] map_concat comp_def)
qed

lemma rx_element_Nil: "rx (element d n) (i, [], g) = [(i, [], g)]"
  by (simp add: element_def)

lemma T_blind_time_half:
  "T_blind (Seq (Opt (Seq (Chr CHR ''T'') (Seq (element d1 n1) (Seq (element d2 n2) (element d3 n3))))) Eos)"
  unfolding T_blind_def
proof (intro allI impI)
  fix i s g
  assume s: "CHR ''T'' \<notin> set s"
  show "map (\<lambda>st. snd (snd st))
          (rx (Seq (Opt (Seq (Chr CHR ''T'') (Seq (element d1 n1) (Seq (element d2 n2) (element d3 n3))))) Eos)
            (i, s @ ''T'', g)) =
        map (\<lambda>st. snd (snd st))
          (rx (Seq (Opt (Seq (Chr CHR ''T'') (Seq (element d1 n1) (Seq (element d2 n2) (element d3 n3))))) Eos)
            (i, s, g))"
  proof (cases s)
    case Nil
    then show ?thesis by (simp add: rx_element_Nil)
  next
    case (Cons x xs)
    with s show ?thesis by auto
  qed
qed

lemma T_blind_ISO: "T_blind ISO_DURATION_REGEXP"
  unfolding ISO_DURATION_REGEXP_unfold
  by (intro T_blind_Seq T_blind_time_half T_stable_Bos T_stable_Opt T_stable_Group
      T_stable_Chr T_stable_element) simp_all

lemma exec_ISO_trailing_T:
  assumes "CHR ''T'' \<notin> set s"
  shows "exec ISO_DURATION_REGEXP (s @ ''T'') = exec ISO_DURATION_REGEXP s"
proof -
  have "\<And>xs :: mstate list. (case xs of [] \<Rightarrow> None | (j, u, g) # _ \<Rightarrow> Some g) =
      (case map (\<lambda>st. snd (snd st)) xs of [] \<Rightarrow> None | g # _ \<Rightarrow> Some g)"
    by (auto split: list.splits)
  then show ?thesis
    unfolding exec_ISO
    using T_blind_ISO assms unfolding T_blind_def by simp
qed

lemma isoDuration_append_T:
  assumes "CHR ''T'' \<notin> set s"
  shows "isoDuration (s @ ''T'') path = isoDuration s path"
proof -
  have "s @ ''T'' \<noteq> ''P''" "s @ ''T'' \<noteq> ''-P''" "s \<noteq> ''PT''" "s \<noteq> ''-PT''"
    using assms by (auto simp: append_eq_Cons_conv)
  moreover have "s @ ''T'' = ''PT'' \<longleftrightarrow> s = ''P''" "s @ ''T'' = ''-PT'' \<longleftrightarrow> s = ''-P''"
    by (auto simp: append_eq_Cons_conv)
  ultimately show ?thesis
    unfolding isoDuration_def exec_ISO_trailing_T[OF assms] by simp
qed

section \<open>Durations\<close>

lemmas iso_eval = isoDuration_def exec_def ISO_DURATION_REGEXP_def element_def is_digit_def
  parseElem_def parseFloat_def digits_val_def digit_val_def
  MS_PER_SECOND_def MS_PER_MINUTE_def MS_PER_HOUR_def MS_PER_DAY_def MS_PER_WEEK_def
  MS_PER_MONTH_def MS_PER_YEAR_def


text \<open>
  C9: the four empty forms "P", "PT", "-P" and "-PT" are rejected at every path with
  the message "<formatted path> must be a valid ISO 8601 duration"; at the path
  \<open>["test"]\<close> the message of "PT" is \<open>"test" must be a valid ISO 8601 duration\<close>.
\<close>

theorem isoDuration_degenerate:
  "isoDuration ''P'' path =
     Inl (ParserError path (formatPath path @ '' must be a valid ISO 8601 duration'')) \<and>
   isoDuration ''PT'' path =
     Inl (ParserError path (formatPath path @ '' must be a valid ISO 8601 duration'')) \<and>
   isoDuration ''-P'' path =
     Inl (ParserError path (formatPath path @ '' must be a valid ISO 8601 duration'')) \<and>
   isoDuration ''-PT'' path =
     Inl (ParserError path (formatPath path @ '' must be a valid ISO 8601 duration'')) \<and>
   isoDuration ''PT'' [SStr ''test''] =
     Inl (ParserError [SStr ''test''] ''\"test\" must be a valid ISO 8601 duration'')"
  by (simp add: isoDuration_def formatPath_Cons display_forms)




text \<open>
  C2: in every input that isoDuration accepts, a quantity with a fractional part is
  followed by no other quantity, so at most one quantity is fractional and it is the
  last one present in the whole duration. An input in which a separator is followed,
  behind a later character that is no digit (the designator), by a further digit (a
  further quantity) is rejected with "<formatted path> must be a valid ISO 8601
  duration"; "P2.4Y3M" and "P3Y6M2W4DT12H30.4M5S" are such inputs.
\<close>

theorem isoDuration_fraction_last:
  fixes v :: number
  shows
  "((isoDuration s path :: 'x thrown + number) = Inr v \<longrightarrow>
      (\<exists>groups. exec ISO_DURATION_REGEXP s = Some groups \<and>
         (\<forall>j l. j < l \<and> l < length quantity_names \<and> fractional (groups (quantity_names ! j)) \<longrightarrow>
            groups (quantity_names ! l) = None))) \<and>
   (c \<in> set '',.'' \<and> \<not> is_digit x \<and> is_digit y \<longrightarrow>
      isoDuration (a @ c # m @ x # m' @ y # z) path =
        Inl (ParserError path (formatPath path @ '' must be a valid ISO 8601 duration''))) \<and>
   isoDuration ''P2.4Y3M'' path =
     Inl (ParserError path (formatPath path @ '' must be a valid ISO 8601 duration'')) \<and>
   isoDuration ''P3Y6M2W4DT12H30.4M5S'' path =
     Inl (ParserError path (formatPath path @ '' must be a valid ISO 8601 duration''))"
proof (intro conjI impI)
  assume "isoDuration s path = Inr v"
  then obtain groups where g: "exec ISO_DURATION_REGEXP s = Some groups"
    by (auto simp: isoDuration_def split: if_splits option.splits)
  have "\<forall>j l. j < l \<and> l < length quantity_names \<and> fractional (groups (quantity_names ! j)) \<longrightarrow>
            groups (quantity_names ! l) = None"
    using exec_fraction_last[OF g] by blast
  with g show "\<exists>groups. exec ISO_DURATION_REGEXP s = Some groups \<and>
         (\<forall>j l. j < l \<and> l < length quantity_names \<and> fractional (groups (quantity_names ! j)) \<longrightarrow>
            groups (quantity_names ! l) = None)"
    by blast
next
  assume "c \<in> set '',.'' \<and> \<not> is_digit x \<and> is_digit y"
  then have "fraction_not_last (a @ c # m @ x # m' @ y # z)"
    using fraction_not_last_decomp by blast
  then have "exec ISO_DURATION_REGEXP (a @ c # m @ x # m' @ y # z) = None"
    by (rule fraction_not_last_rejected)
  then show "isoDuration (a @ c # m @ x # m' @ y # z) path =
        Inl (ParserError path (formatPath path @ '' must be a valid ISO 8601 duration''))"
    by (simp add: isoDuration_def)
next
  show "isoDuration ''P2.4Y3M'' path =
     Inl (ParserError path (formatPath path @ '' must be a valid ISO 8601 duration''))"
    by (simp add: iso_eval)
next
  show "isoDuration ''P3Y6M2W4DT12H30.4M5S'' path =
     Inl (ParserError path (formatPath path @ '' must be a valid ISO 8601 duration''))"
    by (simp add: iso_eval)
qed

theorem isoDuration_fraction_last_witness:
  "(\<exists>groups. exec ISO_DURATION_REGEXP ''P3Y6M2.2W'' = Some groups \<and>
      fractional (groups ''weeks'') \<and> groups ''days'' = None \<and> groups ''seconds'' = None) \<and>
   isoDuration (''P2'' @ CHR ''.'' # ''4'' @ CHR ''Y'' # [] @ CHR ''3'' # ''M'') [SStr ''test''] =
     (Inl (ParserError [SStr ''test''] ''\"test\" must be a valid ISO 8601 duration'')
      :: unit thrown + number)"
proof -
  have acc: "isoDuration ''P3Y6M2.2W'' [SStr ''test''] = (Inr (Num 111490560000) :: unit thrown + number)"
    by (simp add: iso_eval)
  have grp: "exec ISO_DURATION_REGEXP ''P3Y6M2.2W'' =
      Some [''years'' \<mapsto> ''3'', ''months'' \<mapsto> ''6'', ''weeks'' \<mapsto> ''2.2'']"
    by (simp add: exec_def ISO_DURATION_REGEXP_def element_def is_digit_def)
  have chars: "CHR ''.'' \<in> set '',.'' \<and> \<not> is_digit CHR ''Y'' \<and> is_digit CHR ''3''"
    by (simp add: is_digit_def)
  from isoDuration_fraction_last[THEN conjunct1, rule_format, OF acc]
  obtain groups where g: "exec ISO_DURATION_REGEXP ''P3Y6M2.2W'' = Some groups"
    "\<forall>j l. j < l \<and> l < length quantity_names \<and> fractional (groups (quantity_names ! j)) \<longrightarrow>
            groups (quantity_names ! l) = None"
    by blast
  have n: "quantity_names ! 2 = ''weeks''" "quantity_names ! 3 = ''days''"
    "quantity_names ! 6 = ''seconds''"
    by (simp_all add: quantity_names_def)
  from g(1) grp have w: "fractional (groups ''weeks'')"
    by (auto simp: fractional_def)
  from g(2)[rule_format, of 2 3] w n have d: "groups ''days'' = None"
    by (simp add: length_quantity_names)
  from g(2)[rule_format, of 2 6] w n have "groups ''seconds'' = None"
    by (simp add: length_quantity_names)
  with g(1) w d have 1: "\<exists>groups. exec ISO_DURATION_REGEXP ''P3Y6M2.2W'' = Some groups \<and>
      fractional (groups ''weeks'') \<and> groups ''days'' = None \<and> groups ''seconds'' = None"
    by blast
  have 2: "isoDuration (''P2'' @ CHR ''.'' # ''4'' @ CHR ''Y'' # [] @ CHR ''3'' # ''M'') [SStr ''test''] =
     (Inl (ParserError [SStr ''test''] (formatPath [SStr ''test''] @ '' must be a valid ISO 8601 duration''))
      :: unit thrown + number)"
    by (rule isoDuration_fraction_last[THEN conjunct2, THEN conjunct1, rule_format, OF chars])
  from 1 2 show ?thesis
    by (simp add: formatPath_Cons display_forms)
qed

text \<open>
  C10: a duration without "T" that isoDuration accepts is accepted with the same
  milliseconds when a single "T" is appended, as "P3Y6M2W4DT" and "P3Y6M2W4.4DT" are;
  indeed isoDuration returns, or throws, the same for every input without "T" and for
  that input followed by "T". Of the inputs that match the expression, only "P", "PT",
  "-P" and "-PT" are rejected.
\<close>

theorem isoDuration_bare_T:
  fixes v :: number
  shows
  "(CHR ''T'' \<notin> set s \<and> (isoDuration s path :: 'x thrown + number) = Inr v \<longrightarrow>
      (isoDuration (s @ ''T'') path :: 'x thrown + number) = Inr v) \<and>
   (CHR ''T'' \<notin> set s \<longrightarrow>
      (isoDuration (s @ ''T'') path :: 'x thrown + number) = isoDuration s path) \<and>
   (exec ISO_DURATION_REGEXP s \<noteq> None \<and> s \<noteq> ''P'' \<and> s \<noteq> ''PT'' \<and> s \<noteq> ''-P'' \<and> s \<noteq> ''-PT'' \<longrightarrow>
      (\<exists>w. (isoDuration s path :: 'x thrown + number) = Inr w)) \<and>
   (isoDuration ''P3Y6M2W4DT'' path :: 'x thrown + number) = Inr (Num 111715200000) \<and>
   (isoDuration ''P3Y6M2W4D'' path :: 'x thrown + number) = Inr (Num 111715200000) \<and>
   (isoDuration ''P3Y6M2W4.4DT'' path :: 'x thrown + number) = Inr (Num 111749760000) \<and>
   (isoDuration ''P3Y6M2W4.4D'' path :: 'x thrown + number) = Inr (Num 111749760000)"
proof (intro conjI impI)
  assume "CHR ''T'' \<notin> set s \<and> (isoDuration s path :: 'x thrown + number) = Inr v"
  then show "(isoDuration (s @ ''T'') path :: 'x thrown + number) = Inr v"
    by (simp add: isoDuration_append_T)
next
  assume "CHR ''T'' \<notin> set s"
  then show "(isoDuration (s @ ''T'') path :: 'x thrown + number) = isoDuration s path"
    by (rule isoDuration_append_T)
next
  assume "exec ISO_DURATION_REGEXP s \<noteq> None \<and> s \<noteq> ''P'' \<and> s \<noteq> ''PT'' \<and> s \<noteq> ''-P'' \<and> s \<noteq> ''-PT''"
  then show "\<exists>w. (isoDuration s path :: 'x thrown + number) = Inr w"
    by (auto simp: isoDuration_def)
qed (simp_all add: iso_eval)

theorem isoDuration_bare_T_witness:
  "isoDuration (''-P3Y6M2.2W'' @ ''T'') [SStr ''test''] =
     (Inr (Num (- 111490560000)) :: unit thrown + number) \<and>
   (\<exists>w. isoDuration ''P1DT'' [SStr ''test''] = (Inr w :: unit thrown + number))"
proof -
  have h: "CHR ''T'' \<notin> set ''-P3Y6M2.2W'' \<and>
      isoDuration ''-P3Y6M2.2W'' [SStr ''test''] = (Inr (Num (- 111490560000)) :: unit thrown + number)"
    by (simp add: iso_eval)
  have 1: "isoDuration (''-P3Y6M2.2W'' @ ''T'') [SStr ''test''] =
     (Inr (Num (- 111490560000)) :: unit thrown + number)"
    by (rule isoDuration_bare_T[THEN conjunct1, rule_format, OF h])
  have m: "exec ISO_DURATION_REGEXP ''P1DT'' \<noteq> None \<and> ''P1DT'' \<noteq> ''P'' \<and> ''P1DT'' \<noteq> ''PT'' \<and>
      ''P1DT'' \<noteq> ''-P'' \<and> ''P1DT'' \<noteq> ''-PT''"
    by (simp add: exec_def ISO_DURATION_REGEXP_def element_def is_digit_def)
  have 2: "\<exists>w. isoDuration ''P1DT'' [SStr ''test''] = (Inr w :: unit thrown + number)"
    by (rule isoDuration_bare_T[THEN conjunct2, THEN conjunct2, THEN conjunct1,
        rule_format, OF m])
  from 1 2 show ?thesis by blast
qed

end
